theory Spec2Isabelle
  imports Main "HOL-Library.Sublist" "HOL-Library.AList"
begin

section \<open>The vault-dump command (cmd/vault-dump/main.go)\<close>

text \<open>
  The run function of the root command talks to collaborators whose code lives in other
  packages (\<^verbatim>\<open>pkg/vault\<close>, \<^verbatim>\<open>pkg/dump\<close>, \<^verbatim>\<open>pkg/aws\<close>) or in
  Go's standard library. They are parameters of the model (the record \<open>env\<close>); every
  call the run function makes to one of them is written to a trace, in the order the
  source makes it. Only \<^verbatim>\<open>dump.GetPathForOutput\<close>, which maps a path to a path, is
  taken to do nothing else and leaves no entry.
\<close>

datatype error = Error string

record vault_Ignore =
  Keys :: "string list"
  Paths :: "string list"

record vault_Config =
  Address :: string
  Ignore :: vault_Ignore
  Retries :: int
  Token :: string

record ('out, 'vc) dump_Config =
  Debug :: bool
  InputPath :: string
  Filename :: string
  Output :: 'out
  VaultConfig :: 'vc

text \<open>
  The package-level variables bound to flags (\<^verbatim>\<open>encoding\<close>, \<^verbatim>\<open>kmsKey\<close>,
  \<^verbatim>\<open>output\<close>, \<^verbatim>\<open>Verbose\<close>) and the values the run function reads through viper.
\<close>

record flags =
  vault_addr :: string
  vault_token :: string
  ignore_keys :: "string list"
  ignore_paths :: "string list"
  filename :: string
  encoding :: string
  kmsKey :: string
  output_flag :: string
  Verbose :: bool

record ('vc, 'out, 'd, 'ct) env =
  vault_NewClient :: "vault_Config \<Rightarrow> error + 'vc"
  ioutil_TempDir :: "string \<Rightarrow> string \<Rightarrow> error + string"
  dump_GetPathForOutput :: "string \<Rightarrow> string"
  dump_NewOutput :: "string \<Rightarrow> string \<Rightarrow> string \<Rightarrow> error + 'out"
  dump_New :: "('out, 'vc) dump_Config \<Rightarrow> error + 'd"
  dumper_Secrets :: "'d \<Rightarrow> error option"
  aws_Encrypt :: "string \<Rightarrow> string \<Rightarrow> error + 'ct"
  aws_Upload :: "string \<Rightarrow> 'ct \<Rightarrow> error option"

datatype ('vc, 'out, 'd, 'ct) event =
    EvNewClient vault_Config
  | EvTempDir string string
  | EvLogFatal error
  | EvRemoveAll string
  | EvNewOutput string string string
  | EvDumpNew "('out, 'vc) dump_Config"
  | EvSecrets 'd
  | EvEncrypt string string
  | EvUpload string 'ct

text \<open>
  How a call of the run function ends: it returns (\<open>None\<close> for a nil error), the process
  is ended inside it by \<^verbatim>\<open>log.Fatal\<close>, which logs the error and exits with status 1
  (deferred calls do not run), or it panics on \<^verbatim>\<open>args[0]\<close> with no argument
  (deferred calls run).
\<close>

datatype outcome = Returned "error option" | Exited nat | Panicked

definition vault_cfg :: "flags \<Rightarrow> vault_Config" where
  "vault_cfg fl =
     \<lparr>Address = vault_addr fl,
      Ignore = \<lparr>Keys = ignore_keys fl, Paths = ignore_paths fl\<rparr>,
      Retries = 5,
      Token = vault_token fl\<rparr>"

text \<open>The second positional argument, or the empty string (lines 79 to 82).\<close>

definition destination :: "string list \<Rightarrow> string" where
  "destination args = (if length args > 1 then args ! 1 else [])"

text \<open>
  Lines 84 to 100: the checks of an S3 run and the staging directory. The result is
  either the way the run function ends there, or the values of \<^verbatim>\<open>outputPath\<close> and
  \<^verbatim>\<open>s3path\<close> with which line 101 is reached.
\<close>

definition stage ::
  "('vc, 'out, 'd, 'ct) env \<Rightarrow> flags \<Rightarrow> string list \<Rightarrow>
     ('vc, 'out, 'd, 'ct) event list \<times> (outcome + string \<times> string)" where
  "stage env fl args =
     (let outputPath = destination args in
      if output_flag fl = ''s3'' then
        if kmsKey fl = [] then
          ([], Inl (Returned (Some (Error ''Error: KMS key must be specified for S3 upload''))))
        else if outputPath = [] then
          ([], Inl (Returned (Some (Error ''Error: Must specify an output path for S3 upload''))))
        else
          let s3path = outputPath in
          if length s3path < 5 \<or> take 5 s3path \<noteq> ''s3://'' then
            ([], Inl (Returned (Some (Error ''Error: Output path for S3 upload must begin with s3://''))))
          else
            (case ioutil_TempDir env [] ''vault-dump-*'' of
               Inl err \<Rightarrow>
                 ([EvTempDir [] ''vault-dump-*'', EvLogFatal err], Inl (Exited 1))
             | Inr dir \<Rightarrow> ([EvTempDir [] ''vault-dump-*''], Inr (dir, s3path)))
      else ([], Inr (outputPath, [])))"

text \<open>\<^verbatim>\<open>fmt.Sprintf("%s/%s.%s", a, b, c)\<close>\<close>

definition sprintf_path :: "string \<Rightarrow> string \<Rightarrow> string \<Rightarrow> string" where
  "sprintf_path a b c = a @ ''/'' @ b @ ''.'' @ c"

text \<open>
  Lines 102 to 142, run after the \<^verbatim>\<open>defer\<close> of line 101. \<open>deferred\<close> is the value
  \<^verbatim>\<open>outputPath\<close> has at line 101; line 102 assigns the variable anew.
\<close>

definition body ::
  "('vc, 'out, 'd, 'ct) env \<Rightarrow> flags \<Rightarrow> string list \<Rightarrow> 'vc \<Rightarrow> string \<Rightarrow> string \<Rightarrow>
     ('vc, 'out, 'd, 'ct) event list \<times> outcome" where
  "body env fl args vc deferred s3path =
     (let outputPath = dump_GetPathForOutput env deferred;
          t1 = [EvNewOutput outputPath (encoding fl) (output_flag fl)] in
      case dump_NewOutput env outputPath (encoding fl) (output_flag fl) of
        Inl err \<Rightarrow> (t1, Returned (Some err))
      | Inr outputConfig \<Rightarrow>
          let outputFilename = filename fl in
          (case args of
             [] \<Rightarrow> (t1, Panicked)
           | a0 # _ \<Rightarrow>
               let cfg = \<lparr>Debug = Verbose fl, InputPath = a0, Filename = outputFilename,
                          Output = outputConfig, VaultConfig = vc\<rparr>;
                   t2 = t1 @ [EvDumpNew cfg] in
               (case dump_New env cfg of
                  Inl err \<Rightarrow> (t2, Returned (Some err))
                | Inr dumper \<Rightarrow>
                    let t3 = t2 @ [EvSecrets dumper] in
                    (case dumper_Secrets env dumper of
                       Some err \<Rightarrow> (t3, Returned (Some err))
                     | None \<Rightarrow>
                         if output_flag fl = ''s3'' then
                           let srcPath = sprintf_path outputPath outputFilename (encoding fl);
                               dstPath = sprintf_path s3path outputFilename (encoding fl);
                               t4 = t3 @ [EvEncrypt srcPath (kmsKey fl)] in
                           (case aws_Encrypt env srcPath (kmsKey fl) of
                              Inl err \<Rightarrow> (t4, Returned (Some err))
                            | Inr ciphertext \<Rightarrow>
                                let t5 = t4 @ [EvUpload dstPath ciphertext] in
                                (case aws_Upload env dstPath ciphertext of
                                   Some err \<Rightarrow> (t5, Returned (Some err))
                                 | None \<Rightarrow> (t5, Returned None)))
                         else (t3, Returned None)))))"

text \<open>
  The run function (lines 65 to 143). The call deferred at line 101 runs when the
  function returns or panics, with the argument evaluated at line 101.
\<close>

definition RunE ::
  "('vc, 'out, 'd, 'ct) env \<Rightarrow> flags \<Rightarrow> string list \<Rightarrow>
     ('vc, 'out, 'd, 'ct) event list \<times> outcome" where
  "RunE env fl args =
     (case vault_NewClient env (vault_cfg fl) of
        Inl err \<Rightarrow> ([EvNewClient (vault_cfg fl)], Returned (Some err))
      | Inr vc \<Rightarrow>
          (case stage env fl args of
             (t0, Inl oc) \<Rightarrow> (EvNewClient (vault_cfg fl) # t0, oc)
           | (t0, Inr (outputPath, s3path)) \<Rightarrow>
               (case body env fl args vc outputPath s3path of
                  (t1, oc) \<Rightarrow>
                    (EvNewClient (vault_cfg fl) # t0 @ t1 @ [EvRemoveAll outputPath], oc))))"






section \<open>The transform subcommand (cmd/transform.go)\<close>













section \<open>The extraction engine, modelled from the specification\<close>

text \<open>
  The packages \<^verbatim>\<open>pkg/vault\<close> and \<^verbatim>\<open>pkg/dump\<close>, which hold the ignore filter, the
  retrying client and the walker, are not among the sources. Their definitions below
  follow sections 3, 4 and 7 of the specification.
\<close>

text \<open>
  Modelled from the spec: SecretPath, missing with \<^verbatim>\<open>pkg/vault\<close>. An ordered sequence of
  path segments; comparisons are segment-wise.
\<close>

type_synonym SecretPath = "string list"

text \<open>
  Modelled from the spec: the IgnoreRule set, missing with \<^verbatim>\<open>pkg/vault\<close>. Two
  independent sets: leaf key names to drop wherever they occur, and path prefixes under
  which whole subtrees are skipped. Empty sets are valid.
\<close>

record IgnoreRules =
  ignoredKeys :: "string set"
  ignoredPaths :: "SecretPath set"

text \<open>
  Modelled from the spec: IgnoreFilter.shouldSkipPath, missing with \<^verbatim>\<open>pkg/vault\<close>. True
  iff the path equals, or is a descendant of, an entry of \<open>ignoredPaths\<close>; a path is under
  a prefix iff every segment of the prefix matches the corresponding leading segment of
  the path.
\<close>

definition shouldSkipPath :: "IgnoreRules \<Rightarrow> SecretPath \<Rightarrow> bool" where
  "shouldSkipPath ign path = (\<exists>p \<in> ignoredPaths ign. prefix p path)"

text \<open>
  Modelled from the spec: IgnoreFilter.shouldSkipKey, missing with \<^verbatim>\<open>pkg/vault\<close>. True
  iff the key is a member of \<open>ignoredKeys\<close>, whatever the path it appears at.
\<close>

definition shouldSkipKey :: "IgnoreRules \<Rightarrow> string \<Rightarrow> bool" where
  "shouldSkipKey ign key = (key \<in> ignoredKeys ign)"

text \<open>
  Modelled from the spec: the error taxonomy of section 7 as far as extraction uses it,
  missing with \<^verbatim>\<open>pkg/vault\<close>. \<open>RetriesExhausted\<close> carries the last underlying error,
  \<open>ExtractionFailed\<close> the failing path and the cause.
\<close>

datatype failure =
    Transient string
  | Permanent string
  | RetriesExhausted failure
  | Cancelled
  | ExtractionFailed SecretPath failure

text \<open>
  Modelled from the spec: the secret store access of section 6, missing with
  \<^verbatim>\<open>pkg/vault\<close>. The two primitives answer from a state of the store \<open>'s\<close> and leave a
  new one, so the same request can fail now and succeed later.
\<close>

record 's store =
  listChildren :: "SecretPath \<Rightarrow> 's \<Rightarrow> (failure + SecretPath list) \<times> 's"
  readLeaf :: "SecretPath \<Rightarrow> 's \<Rightarrow> (failure + (string \<times> string) list) \<times> 's"

text \<open>
  Modelled from the spec: RetryingStoreClient, missing with \<^verbatim>\<open>pkg/vault\<close>. On a
  \<open>Transient\<close> failure the same request is retried up to the maximum attempt count,
  attempts counted from 1; when they are used up the failure is \<open>RetriesExhausted\<close> with
  the last underlying error. Any other failure is surfaced at once and unchanged. The
  result also tells the state the store is left in and the number of attempts made.
\<close>

function retry ::
  "('s \<Rightarrow> (failure + 'a) \<times> 's) \<Rightarrow> nat \<Rightarrow> nat \<Rightarrow> 's \<Rightarrow> (failure + 'a) \<times> 's \<times> nat" where
  "retry request maxAttempts attempt s =
     (case request s of
        (Inr v, s') \<Rightarrow> (Inr v, s', attempt)
      | (Inl (Transient m), s') \<Rightarrow>
          if attempt < maxAttempts then retry request maxAttempts (Suc attempt) s'
          else (Inl (RetriesExhausted (Transient m)), s', attempt)
      | (Inl e, s') \<Rightarrow> (Inl e, s', attempt))"
  by pat_completeness auto
termination
  by (relation "measure (\<lambda>(request, maxAttempts, attempt, s). maxAttempts - attempt)") auto

text \<open>
  Modelled from the spec: the client's entry point, missing with \<^verbatim>\<open>pkg/vault\<close>. The
  attempts of a request are counted from 1.
\<close>

definition withRetry ::
  "('s \<Rightarrow> (failure + 'a) \<times> 's) \<Rightarrow> nat \<Rightarrow> 's \<Rightarrow> (failure + 'a) \<times> 's \<times> nat" where
  "withRetry request maxAttempts s = retry request maxAttempts 1 s"


text \<open>
  Modelled from the spec: ResultTree, missing with \<^verbatim>\<open>pkg/vault\<close>. The nested mapping
  keyed by path segment that mirrors the hierarchy of the store: a leaf holds key-value
  pairs, a branch its children.
\<close>

datatype ResultTree =
    Leaf "(string \<times> string) list"
  | Branch "(string \<times> ResultTree) list"

text \<open>
  Modelled from the spec: one insertion per visited node. The node is stored under the
  segments of its path, nested mappings being made on the way where there are none.
\<close>

fun insert_at :: "SecretPath \<Rightarrow> ResultTree \<Rightarrow> ResultTree \<Rightarrow> ResultTree" where
  "insert_at [] node t = node"
| "insert_at (seg # segs) node (Branch kids) =
     Branch (AList.update seg
       (insert_at segs node (case map_of kids seg of None \<Rightarrow> Branch [] | Some kid \<Rightarrow> kid)) kids)"
| "insert_at (seg # segs) node (Leaf kvs) =
     Branch [(seg, insert_at segs node (Branch []))]"

text \<open>
  Modelled from the spec: reading the ResultTree, missing with \<^verbatim>\<open>pkg/vault\<close>. The node
  of a tree at a path, if there is one.
\<close>

fun node_at :: "ResultTree \<Rightarrow> SecretPath \<Rightarrow> ResultTree option" where
  "node_at t [] = Some t"
| "node_at (Branch kids) (seg # segs) =
     (case map_of kids seg of None \<Rightarrow> None | Some kid \<Rightarrow> node_at kid segs)"
| "node_at (Leaf kvs) (seg # segs) = None"

text \<open>
  Modelled from the spec: a ResultTree contains a node at a path when the path leads to
  an entry of the nested mapping; the empty mapping contains no node.
\<close>

definition has_node :: "ResultTree \<Rightarrow> SecretPath \<Rightarrow> bool" where
  "has_node t path = (path \<noteq> [] \<and> node_at t path \<noteq> None)"

text \<open>
  Modelled from the spec: the two requests of the store access (section 6), to record
  the calls made to the store, in order.
\<close>

datatype call = ListChildren SecretPath | ReadLeaf SecretPath

fun call_path :: "call \<Rightarrow> SecretPath" where
  "call_path (ListChildren p) = p"
| "call_path (ReadLeaf p) = p"

text \<open>
  Modelled from the spec: the state of SecretTreeWalker during a traversal, missing with
  \<^verbatim>\<open>pkg/vault\<close>: the state of the store, the calls made so far and the tree built so
  far.
\<close>

record 's wstate =
  st :: 's
  calls :: "call list"
  tree :: ResultTree

text \<open>
  Modelled from the spec: how a visit of the walker ends. \<open>OutOfFuel\<close> is not an outcome
  of the design: the depth of the hierarchy is not known beforehand, so the recursion of
  the model is bounded by a number of levels, and a visit that needs more ends so.
\<close>

datatype status = Ok | Failed failure | OutOfFuel

text \<open>
  Modelled from the spec: step 4 and 5 of section 4.3. The children are visited in the
  order given; the first visit that does not end well ends the walk.
\<close>

fun each :: "('a \<Rightarrow> 'w \<Rightarrow> 'w \<times> status) \<Rightarrow> 'a list \<Rightarrow> 'w \<Rightarrow> 'w \<times> status" where
  "each visit [] w = (w, Ok)"
| "each visit (c # cs) w =
     (case visit c w of
        (w', Ok) \<Rightarrow> each visit cs w'
      | (w', bad) \<Rightarrow> (w', bad))"

text \<open>
  Modelled from the spec: SecretTreeWalker, the depth-first traversal of section 4.3,
  missing with \<^verbatim>\<open>pkg/vault\<close>. A skipped path ends the branch at once, with no call and
  no insertion. Otherwise the children are listed; an empty list signals a leaf, whose
  pairs are read, filtered by key and inserted (also when none is left); a branch is
  inserted and its children are visited in the order the store returned them. A failure
  of the client ends the whole walk as \<open>ExtractionFailed\<close> with the path.
\<close>

primrec walk_at ::
  "nat \<Rightarrow> IgnoreRules \<Rightarrow> 's store \<Rightarrow> nat \<Rightarrow> SecretPath \<Rightarrow> 's wstate \<Rightarrow> 's wstate \<times> status" where
  "walk_at 0 ign sto maxAttempts path w = (w, OutOfFuel)"
| "walk_at (Suc fuel) ign sto maxAttempts path w =
     (if shouldSkipPath ign path then (w, Ok)
      else
        case withRetry (listChildren sto path) maxAttempts (st w) of
          (Inl e, s1, n1) \<Rightarrow>
            (w\<lparr>st := s1, calls := calls w @ replicate n1 (ListChildren path)\<rparr>,
             Failed (ExtractionFailed path e))
        | (Inr [], s1, n1) \<Rightarrow>
            (case withRetry (readLeaf sto path) maxAttempts s1 of
               (Inl e, s2, n2) \<Rightarrow>
                 (w\<lparr>st := s2,
                    calls := calls w @ replicate n1 (ListChildren path) @ replicate n2 (ReadLeaf path)\<rparr>,
                  Failed (ExtractionFailed path e))
             | (Inr kvs, s2, n2) \<Rightarrow>
                 (w\<lparr>st := s2,
                    calls := calls w @ replicate n1 (ListChildren path) @ replicate n2 (ReadLeaf path),
                    tree := insert_at path (Leaf (filter (\<lambda>(k, v). \<not> shouldSkipKey ign k) kvs)) (tree w)\<rparr>,
                  Ok))
        | (Inr children, s1, n1) \<Rightarrow>
            each (walk_at fuel ign sto maxAttempts) children
              (w\<lparr>st := s1, calls := calls w @ replicate n1 (ListChildren path),
                 tree := insert_at path (Branch []) (tree w)\<rparr>))"

text \<open>
  Modelled from the spec: \<open>walk(rootPath)\<close>. The walk starts from the empty tree. On
  failure no tree is returned; \<open>None\<close> says that the levels allowed did not suffice. The
  calls made and the state the store is left in are reported in every case.
\<close>

definition walk ::
  "nat \<Rightarrow> IgnoreRules \<Rightarrow> 's store \<Rightarrow> nat \<Rightarrow> 's \<Rightarrow> SecretPath \<Rightarrow>
     (call list \<times> 's) \<times> (failure + ResultTree) option" where
  "walk fuel ign sto maxAttempts s0 rootPath =
     (case walk_at fuel ign sto maxAttempts rootPath \<lparr>st = s0, calls = [], tree = Branch []\<rparr> of
        (w, Ok) \<Rightarrow> ((calls w, st w), Some (Inr (tree w)))
      | (w, Failed e) \<Rightarrow> ((calls w, st w), Some (Inl e))
      | (w, OutOfFuel) \<Rightarrow> ((calls w, st w), None))"

text \<open>
  Modelled from the spec: the first two testable properties of section 8, as invariants
  of the walker's state. No call was made for a skipped path and no node of the tree lies
  at one; no leaf of the tree holds an ignored key.
\<close>

definition unskipped :: "IgnoreRules \<Rightarrow> 's wstate \<Rightarrow> bool" where
  "unskipped ign w =
     ((\<forall>c \<in> set (calls w). \<not> shouldSkipPath ign (call_path c)) \<and>
      (\<forall>q. has_node (tree w) q \<longrightarrow> \<not> shouldSkipPath ign q))"

definition filtered :: "IgnoreRules \<Rightarrow> ResultTree \<Rightarrow> bool" where
  "filtered ign t =
     (\<forall>q kvs. node_at t q = Some (Leaf kvs) \<longrightarrow> (\<forall>k \<in> fst ` set kvs. \<not> shouldSkipKey ign k))"

section \<open>The transform engine, modelled from the specification\<close>

text \<open>
  The package \<^verbatim>\<open>pkg/transform\<close>, whose function \<^verbatim>\<open>Transform\<close> the subcommand calls,
  is not among the sources. The engine below follows sections 3, 4.4 and 6 of the
  specification.
\<close>

text \<open>
  Modelled from the spec: the document, missing with \<^verbatim>\<open>pkg/transform\<close>. A nested
  mapping with string keys whose values are strings or nested mappings.
\<close>

datatype document = Str string | Mapping "(string \<times> document) list"

text \<open>
  Modelled from the spec: the locator, missing with \<^verbatim>\<open>pkg/transform\<close>. An ordered
  sequence of segment keys that addresses a position in the nested mapping.
\<close>

type_synonym locator = "string list"

text \<open>
  Modelled from the spec: TransformRule, missing with \<^verbatim>\<open>pkg/transform\<close>. A closed
  variant type with the four operations an implementation must support. A template is
  given as parsed: literal text and references to locators.
\<close>

datatype piece = Text string | Ref locator

datatype TransformRule =
    Delete locator
  | Move locator locator
  | SetLiteral locator document
  | TemplateSubstitute "piece list" locator

text \<open>
  Modelled from the spec: the failure of a transform, missing with \<^verbatim>\<open>pkg/transform\<close>.
  \<open>TransformFailed\<close> carries the index of the failing rule and the cause; the cause the
  spec names is a traversal through a value that is not a mapping.
\<close>

datatype cause = NotAMapping locator

datatype transform_failure = TransformFailed nat cause

text \<open>
  Modelled from the spec: resolving a locator. A position that does not exist is no
  error; descending into a string is.
\<close>

fun resolve :: "locator \<Rightarrow> document \<Rightarrow> cause + document option" where
  "resolve [] d = Inr (Some d)"
| "resolve (k # ks) (Str s) = Inl (NotAMapping (k # ks))"
| "resolve (k # ks) (Mapping m) =
     (case map_of m k of None \<Rightarrow> Inr None | Some c \<Rightarrow> resolve ks c)"

text \<open>
  Modelled from the spec: inserting or overwriting a value at a locator; mappings on the
  way are made where there are none.
\<close>

fun put :: "locator \<Rightarrow> document \<Rightarrow> document \<Rightarrow> cause + document" where
  "put [] v d = Inr v"
| "put (k # ks) v (Str s) = Inl (NotAMapping (k # ks))"
| "put (k # ks) v (Mapping m) =
     (case put ks v (case map_of m k of None \<Rightarrow> Mapping [] | Some c \<Rightarrow> c) of
        Inl e \<Rightarrow> Inl e
      | Inr c' \<Rightarrow> Inr (Mapping (AList.update k c' m)))"

text \<open>
  Modelled from the spec: removing the subtree or leaf at a locator; a locator that
  points to nothing leaves the document as it is. A mapping that the removal empties is
  removed with it, which is what the rename scenario of section 8 shows (no \<^verbatim>\<open>db\<close> key
  remains).
\<close>

fun remove :: "locator \<Rightarrow> document \<Rightarrow> cause + document" where
  "remove [] d = Inr (Mapping [])"
| "remove (k # ks) (Str s) = Inl (NotAMapping (k # ks))"
| "remove [k] (Mapping m) = Inr (Mapping (AList.delete k m))"
| "remove (k # k' # ks) (Mapping m) =
     (case map_of m k of
        None \<Rightarrow> Inr (Mapping m)
      | Some c \<Rightarrow>
          (case remove (k' # ks) c of
             Inl e \<Rightarrow> Inl e
           | Inr c' \<Rightarrow>
               if c' = Mapping [] \<and> c \<noteq> Mapping [] then Inr (Mapping (AList.delete k m))
               else Inr (Mapping (AList.update k c' m))))"

text \<open>
  Modelled from the spec: template substitution. A reference stands for the string at its
  locator in the current document, and for the empty string where there is none.
\<close>

fun substitute :: "piece list \<Rightarrow> document \<Rightarrow> cause + string" where
  "substitute [] d = Inr []"
| "substitute (Text s # ps) d =
     (case substitute ps d of Inl e \<Rightarrow> Inl e | Inr rest \<Rightarrow> Inr (s @ rest))"
| "substitute (Ref l # ps) d =
     (case resolve l d of
        Inl e \<Rightarrow> Inl e
      | Inr found \<Rightarrow>
          (case substitute ps d of
             Inl e \<Rightarrow> Inl e
           | Inr rest \<Rightarrow> Inr ((case found of Some (Str s) \<Rightarrow> s | _ \<Rightarrow> []) @ rest)))"

text \<open>
  Modelled from the spec: the four operations of section 4.4, each on the current working
  document.
\<close>

fun apply_rule :: "TransformRule \<Rightarrow> document \<Rightarrow> cause + document" where
  "apply_rule (Delete src) d = remove src d"
| "apply_rule (Move src dst) d =
     (case resolve src d of
        Inl e \<Rightarrow> Inl e
      | Inr None \<Rightarrow> Inr d
      | Inr (Some v) \<Rightarrow>
          (case remove src d of Inl e \<Rightarrow> Inl e | Inr d' \<Rightarrow> put dst v d'))"
| "apply_rule (SetLiteral dst v) d = put dst v d"
| "apply_rule (TemplateSubstitute ps dst) d =
     (case substitute ps d of Inl e \<Rightarrow> Inl e | Inr s \<Rightarrow> put dst (Str s) d)"

text \<open>
  Modelled from the spec: \<open>apply(ruleSet, document)\<close>, missing with \<^verbatim>\<open>pkg/transform\<close>.
  The rules are applied strictly in the order given, each to the document the earlier
  ones left; the first rule that fails ends the pass with its index. Every call starts
  from a clean rule cursor.
\<close>

fun applyFrom :: "nat \<Rightarrow> TransformRule list \<Rightarrow> document \<Rightarrow> transform_failure + document" where
  "applyFrom i [] d = Inr d"
| "applyFrom i (r # rs) d =
     (case apply_rule r d of
        Inl c \<Rightarrow> Inl (TransformFailed i c)
      | Inr d' \<Rightarrow> applyFrom (Suc i) rs d')"

text \<open>
  Modelled from the spec: one invocation of the engine, missing with \<^verbatim>\<open>pkg/transform\<close>:
  a full pass over the rule set with the cursor at the first rule.
\<close>

definition applyRules :: "TransformRule list \<Rightarrow> document \<Rightarrow> transform_failure + document" where
  "applyRules ruleSet d = applyFrom 0 ruleSet d"

section \<open>Example runs\<close>

definition ex_env :: "(unit, string, string, string) env" where
  "ex_env =
     \<lparr>vault_NewClient = (\<lambda>c. Inr ()),
      ioutil_TempDir = (\<lambda>d p. Inr ''/tmp/vault-dump-42''),
      dump_GetPathForOutput = (\<lambda>p. p),
      dump_NewOutput = (\<lambda>p e m. Inr p),
      dump_New = (\<lambda>c. Inr (InputPath c)),
      dumper_Secrets = (\<lambda>d. None),
      aws_Encrypt = (\<lambda>src k. Inr (''kms:'' @ src)),
      aws_Upload = (\<lambda>dst ct. None)\<rparr>"

definition ex_fl :: flags where
  "ex_fl =
     \<lparr>vault_addr = ''https://127.0.0.1:8200'', vault_token = ''t'', ignore_keys = [],
      ignore_paths = [], filename = ''vault-dump'', encoding = ''json'', kmsKey = ''arn:key'',
      output_flag = ''s3'', Verbose = False\<rparr>"

definition ex_args :: "string list" where
  "ex_args = [''secret'', ''s3://bucket/dumps'']"

definition file_fl :: flags where
  "file_fl = ex_fl\<lparr>output_flag := ''file''\<rparr>"

definition file_args :: "string list" where
  "file_args = [''secret'', ''/home/me/dump'']"

text \<open>A Vault client that cannot be built.\<close>

definition noclient_env :: "(unit, string, string, string) env" where
  "noclient_env = ex_env\<lparr>vault_NewClient := (\<lambda>c. Inl (Error ''vault: no client''))\<rparr>"




text \<open>
  The store of the scenario of section 8: under the root, the leaf \<^verbatim>\<open>/db\<close> with the
  keys \<^verbatim>\<open>user\<close> and \<^verbatim>\<open>pass\<close>. The state of a store counts the calls made to it.
\<close>

definition db_store :: "nat store" where
  "db_store =
     \<lparr>listChildren =
        (\<lambda>p n. (if p = [] then Inr [[''db'']]
                else if p = [''db''] then Inr []
                else Inl (Permanent ''not found''), Suc n)),
      readLeaf =
        (\<lambda>p n. (if p = [''db''] then Inr [(''user'', ''alice''), (''pass'', ''s3cr3t'')]
                else Inl (Permanent ''not found''), Suc n))\<rparr>"

definition pass_rules :: IgnoreRules where
  "pass_rules = \<lparr>ignoredKeys = {''pass''}, ignoredPaths = {}\<rparr>"

definition both_keys_rules :: IgnoreRules where
  "both_keys_rules = \<lparr>ignoredKeys = {''user'', ''pass''}, ignoredPaths = {}\<rparr>"

text \<open>
  A store with two levels: \<^verbatim>\<open>/app/prod\<close>, \<^verbatim>\<open>/app/production\<close> and \<^verbatim>\<open>/db\<close> are
  leaves.
\<close>

definition app_store :: "nat store" where
  "app_store =
     \<lparr>listChildren =
        (\<lambda>p n. (if p = [] then Inr [[''app''], [''db'']]
                else if p = [''app''] then Inr [[''app'', ''prod''], [''app'', ''production'']]
                else Inr [], Suc n)),
      readLeaf =
        (\<lambda>p n. (if p = [''db''] then Inr [(''user'', ''alice'')]
                else if p = [''app'', ''prod''] then Inr [(''token'', ''t1'')]
                else if p = [''app'', ''production''] then Inr [(''token'', ''t2'')]
                else Inl (Permanent ''not found''), Suc n))\<rparr>"

definition prod_rules :: IgnoreRules where
  "prod_rules = \<lparr>ignoredKeys = {}, ignoredPaths = {[''app'', ''prod'']}\<rparr>"




section \<open>Properties of the vault-dump command\<close>

lemma s3_prefix_iff: "(length s < 5 \<or> take 5 s \<noteq> ''s3://'') = (\<not> prefix ''s3://'' s)"
proof -
  have "take 5 s = ''s3://''" if "prefix ''s3://'' s"
  proof -
    from that obtain z where "s = ''s3://'' @ z" by (auto simp: prefix_def)
    then show ?thesis by simp
  qed
  moreover have "prefix ''s3://'' s" if "take 5 s = ''s3://''"
    using that take_is_prefix [of 5 s] by simp
  moreover have "take 5 s \<noteq> ''s3://''" if "length s < 5"
    using that by auto
  ultimately show ?thesis by blast
qed

lemma body_not_Exited: "snd (body env fl args vc d s) \<noteq> Exited n"
  by (auto simp: body_def Let_def split: sum.splits list.splits option.splits)

lemma RunE_after_defer:
  assumes "vault_NewClient env (vault_cfg fl) = Inr vc"
      and "stage env fl args = (t0, Inr (outputPath, s3path))"
  shows "RunE env fl args =
           (EvNewClient (vault_cfg fl) # t0 @ fst (body env fl args vc outputPath s3path) @ [EvRemoveAll outputPath],
            snd (body env fl args vc outputPath s3path))"
  using assms by (simp add: RunE_def split: prod.splits)

lemma stage_not_s3:
  "output_flag fl \<noteq> ''s3'' \<Longrightarrow> stage env fl args = ([], Inr (destination args, []))"
  by (simp add: stage_def)

text \<open>
  Claim C2. Every call of the run function that reaches the \<^verbatim>\<open>defer\<close> of line 101
  (the Vault client was built and lines 84 to 100 did not end the call) ends by applying
  \<^verbatim>\<open>os.RemoveAll\<close> to the value \<^verbatim>\<open>outputPath\<close> had at that line, whatever the
  output mode: the process is never ended before the deferred call runs. Outside the S3
  mode that value is the destination the user gave; in particular a run with output mode
  \<^verbatim>\<open>file\<close> and a second positional argument removes that path when it ends.
\<close>

theorem C2_deferred_RemoveAll_any_mode:
  assumes "vault_NewClient env (vault_cfg fl) = Inr vc"
      and "stage env fl args = (t0, Inr (outputPath, s3path))"
  shows "RunE env fl args =
           (EvNewClient (vault_cfg fl) # t0 @ fst (body env fl args vc outputPath s3path)
              @ [EvRemoveAll outputPath],
            snd (body env fl args vc outputPath s3path))
         \<and> last (fst (RunE env fl args)) = EvRemoveAll outputPath
         \<and> (\<forall>n. snd (RunE env fl args) \<noteq> Exited n)
         \<and> (output_flag fl \<noteq> ''s3'' \<longrightarrow> outputPath = destination args)
         \<and> (output_flag fl = ''file'' \<longrightarrow> 1 < length args \<longrightarrow>
              last (fst (RunE env fl args)) = EvRemoveAll (args ! 1))"
proof -
  note run = RunE_after_defer [OF assms]
  have dest: "output_flag fl \<noteq> ''s3'' \<longrightarrow> outputPath = destination args"
    using assms(2) by (auto simp: stage_not_s3)
  have noexit: "\<forall>n. snd (RunE env fl args) \<noteq> Exited n"
    by (simp add: run body_not_Exited)
  have fin: "last (fst (RunE env fl args)) = EvRemoveAll outputPath"
    by (simp add: run)
  have "output_flag fl = ''file'' \<longrightarrow> 1 < length args \<longrightarrow>
          last (fst (RunE env fl args)) = EvRemoveAll (args ! 1)"
    using dest fin by (auto simp: destination_def)
  with dest noexit fin run show ?thesis by simp
qed

theorem C2_witness:
  "last (fst (RunE ex_env file_fl file_args)) = EvRemoveAll ''/home/me/dump''
   \<and> output_flag file_fl = ''file''
   \<and> file_args ! 1 = ''/home/me/dump''"
proof -
  have 1: "vault_NewClient ex_env (vault_cfg file_fl) = Inr ()"
    by (simp add: ex_env_def)
  have 2: "stage ex_env file_fl file_args = ([], Inr (''/home/me/dump'', []))"
    by (simp add: stage_def file_fl_def ex_fl_def file_args_def destination_def)
  have 3: "output_flag file_fl = ''file''"
    by (simp add: file_fl_def)
  have 4: "1 < length file_args" "file_args ! 1 = ''/home/me/dump''"
    by (simp_all add: file_args_def)
  from C2_deferred_RemoveAll_any_mode [OF 1 2] 3 4 show ?thesis by simp
qed

lemma stage_s3_ok:
  assumes "output_flag fl = ''s3''" "kmsKey fl \<noteq> []" "prefix ''s3://'' (destination args)"
      and "ioutil_TempDir env [] ''vault-dump-*'' = Inr tmp"
  shows "stage env fl args = ([EvTempDir [] ''vault-dump-*''], Inr (tmp, destination args))"
proof -
  have "\<not> (length (destination args) < 5 \<or> take 5 (destination args) \<noteq> ''s3://'')"
    using assms(3) by (simp only: s3_prefix_iff) simp
  moreover have "destination args \<noteq> []" using assms(3) by auto
  ultimately show ?thesis using assms(1,2,4) by (simp add: stage_def Let_def)
qed

lemma body_events:
  assumes "body env fl args vc d s3path = (t, oc)"
  shows "(\<forall>p e m. EvNewOutput p e m \<in> set t \<longrightarrow> p = dump_GetPathForOutput env d)"
    and "(\<forall>c. EvDumpNew c \<in> set t \<longrightarrow>
            dump_NewOutput env (dump_GetPathForOutput env d) (encoding fl) (output_flag fl) = Inr (Output c))"
    and "(\<forall>src k. EvEncrypt src k \<in> set t \<longrightarrow>
            src = sprintf_path (dump_GetPathForOutput env d) (filename fl) (encoding fl) \<and> k = kmsKey fl)"
    and "(\<forall>dst ct. EvUpload dst ct \<in> set t \<longrightarrow>
            dst = sprintf_path s3path (filename fl) (encoding fl) \<and>
            aws_Encrypt env (sprintf_path (dump_GetPathForOutput env d) (filename fl) (encoding fl)) (kmsKey fl) = Inr ct)"
    and "(\<forall>p. EvRemoveAll p \<notin> set t)"
  using assms
  by (auto simp: body_def Let_def split: sum.splits list.splits option.splits if_splits)

lemma body_success_s3:
  assumes "body env fl args vc d s3path = (t, Returned None)" "output_flag fl = ''s3''"
  shows "\<exists>a0 rest out dm ct.
           args = a0 # rest
         \<and> dump_NewOutput env (dump_GetPathForOutput env d) (encoding fl) ''s3'' = Inr out
         \<and> dump_New env \<lparr>Debug = Verbose fl, InputPath = a0, Filename = filename fl,
                           Output = out, VaultConfig = vc\<rparr> = Inr dm
         \<and> aws_Encrypt env (sprintf_path (dump_GetPathForOutput env d) (filename fl) (encoding fl))
              (kmsKey fl) = Inr ct
         \<and> t = [EvNewOutput (dump_GetPathForOutput env d) (encoding fl) ''s3'',
                EvDumpNew \<lparr>Debug = Verbose fl, InputPath = a0, Filename = filename fl,
                           Output = out, VaultConfig = vc\<rparr>,
                EvSecrets dm,
                EvEncrypt (sprintf_path (dump_GetPathForOutput env d) (filename fl) (encoding fl)) (kmsKey fl),
                EvUpload (sprintf_path s3path (filename fl) (encoding fl)) ct]"
  using assms
  by (auto simp: body_def Let_def split: sum.splits list.splits option.splits if_splits)

text \<open>
  Claim C1. In an S3 run that passes the checks of lines 86 to 95 (and whose staging
  directory \<open>tmp\<close> was created by \<^verbatim>\<open>ioutil.TempDir\<close>), the trace of the run function is
  the client's construction, the creation of \<open>tmp\<close>, the calls \<open>t\<close> of lines 102 to 140 and
  last the removal of \<open>tmp\<close>, on every way the function ends. In \<open>t\<close> the output
  configuration handed to the dumper is built on \<^verbatim>\<open>GetPathForOutput(tmp)\<close>, whatever
  destination the user gave, the file that is encrypted lies in that directory, what is
  uploaded is that ciphertext, to the S3 destination, and nothing is removed. A run that
  returns nil did all of it: output configuration, dumper, dump, encryption, upload,
  removal.
\<close>

theorem C1_s3_run_staged:
  assumes "output_flag fl = ''s3''"
      and "vault_NewClient env (vault_cfg fl) = Inr vc"
      and "kmsKey fl \<noteq> []"
      and "prefix ''s3://'' (destination args)"
      and "ioutil_TempDir env [] ''vault-dump-*'' = Inr tmp"
  shows "\<exists>t. fst (RunE env fl args) =
               EvNewClient (vault_cfg fl) # EvTempDir [] ''vault-dump-*'' # t @ [EvRemoveAll tmp]
           \<and> (\<forall>p e m. EvNewOutput p e m \<in> set t \<longrightarrow> p = dump_GetPathForOutput env tmp)
           \<and> (\<forall>c. EvDumpNew c \<in> set t \<longrightarrow>
                  dump_NewOutput env (dump_GetPathForOutput env tmp) (encoding fl) ''s3'' = Inr (Output c))
           \<and> (\<forall>src k. EvEncrypt src k \<in> set t \<longrightarrow>
                  src = sprintf_path (dump_GetPathForOutput env tmp) (filename fl) (encoding fl))
           \<and> (\<forall>dst ct. EvUpload dst ct \<in> set t \<longrightarrow>
                  dst = sprintf_path (destination args) (filename fl) (encoding fl) \<and>
                  aws_Encrypt env (sprintf_path (dump_GetPathForOutput env tmp) (filename fl) (encoding fl))
                    (kmsKey fl) = Inr ct)
           \<and> (\<forall>p. EvRemoveAll p \<notin> set t)
           \<and> (\<forall>n. snd (RunE env fl args) \<noteq> Exited n)
           \<and> (snd (RunE env fl args) = Returned None \<longrightarrow>
                (\<exists>a0 rest out dm ct.
                   args = a0 # rest
                 \<and> dump_NewOutput env (dump_GetPathForOutput env tmp) (encoding fl) ''s3'' = Inr out
                 \<and> dump_New env \<lparr>Debug = Verbose fl, InputPath = a0, Filename = filename fl,
                                   Output = out, VaultConfig = vc\<rparr> = Inr dm
                 \<and> aws_Encrypt env (sprintf_path (dump_GetPathForOutput env tmp) (filename fl) (encoding fl))
                      (kmsKey fl) = Inr ct
                 \<and> t = [EvNewOutput (dump_GetPathForOutput env tmp) (encoding fl) ''s3'',
                        EvDumpNew \<lparr>Debug = Verbose fl, InputPath = a0, Filename = filename fl,
                                   Output = out, VaultConfig = vc\<rparr>,
                        EvSecrets dm,
                        EvEncrypt (sprintf_path (dump_GetPathForOutput env tmp) (filename fl) (encoding fl))
                          (kmsKey fl),
                        EvUpload (sprintf_path (destination args) (filename fl) (encoding fl)) ct]))"
proof -
  define t where "t = fst (body env fl args vc tmp (destination args))"
  define oc where "oc = snd (body env fl args vc tmp (destination args))"
  have b: "body env fl args vc tmp (destination args) = (t, oc)"
    by (simp add: t_def oc_def)
  have st: "stage env fl args = ([EvTempDir [] ''vault-dump-*''], Inr (tmp, destination args))"
    using assms(1,3,4,5) by (rule stage_s3_ok)
  have run: "RunE env fl args =
      (EvNewClient (vault_cfg fl) # EvTempDir [] ''vault-dump-*'' # t @ [EvRemoveAll tmp], oc)"
    using RunE_after_defer [OF assms(2) st] by (simp add: t_def oc_def)
  have succ: "oc = Returned None \<Longrightarrow> body env fl args vc tmp (destination args) = (t, Returned None)"
    using b by simp
  have "\<forall>n. oc \<noteq> Exited n"
    using body_not_Exited [of env fl args vc tmp "destination args"] by (simp add: oc_def)
  then show ?thesis
    using body_events [OF b] body_success_s3 [OF succ assms(1)] run assms(1)
    by (intro exI [of _ t]) simp
qed

theorem C1_witness:
  "fst (RunE ex_env ex_fl ex_args) =
     [EvNewClient (vault_cfg ex_fl), EvTempDir [] ''vault-dump-*'',
      EvNewOutput ''/tmp/vault-dump-42'' ''json'' ''s3'',
      EvDumpNew \<lparr>Debug = False, InputPath = ''secret'', Filename = ''vault-dump'',
                 Output = ''/tmp/vault-dump-42'', VaultConfig = ()\<rparr>,
      EvSecrets ''secret'',
      EvEncrypt ''/tmp/vault-dump-42/vault-dump.json'' ''arn:key'',
      EvUpload ''s3://bucket/dumps/vault-dump.json'' ''kms:/tmp/vault-dump-42/vault-dump.json'',
      EvRemoveAll ''/tmp/vault-dump-42'']
   \<and> snd (RunE ex_env ex_fl ex_args) = Returned None"
proof -
  have 1: "output_flag ex_fl = ''s3''" by (simp add: ex_fl_def)
  have 2: "vault_NewClient ex_env (vault_cfg ex_fl) = Inr ()" by (simp add: ex_env_def)
  have 3: "kmsKey ex_fl \<noteq> []" by (simp add: ex_fl_def)
  have 4: "prefix ''s3://'' (destination ex_args)" by (simp add: ex_args_def destination_def)
  have 5: "ioutil_TempDir ex_env [] ''vault-dump-*'' = Inr ''/tmp/vault-dump-42''"
    by (simp add: ex_env_def)
  have r: "snd (RunE ex_env ex_fl ex_args) = Returned None"
    by (simp add: RunE_def stage_def body_def ex_env_def ex_fl_def ex_args_def destination_def
        vault_cfg_def sprintf_path_def Let_def)
  from C1_s3_run_staged [OF 1 2 3 4 5] r show ?thesis
    by (auto simp: ex_env_def ex_fl_def ex_args_def destination_def sprintf_path_def)
qed

text \<open>
  Claim C9, as the code has it. With a Vault client that could not be built, an S3 run
  whose key and destination pass every check still fails with an error before any dump
  and before any directory is created.
\<close>

theorem C9_counterexample:
  "output_flag ex_fl = ''s3''
   \<and> kmsKey ex_fl \<noteq> []
   \<and> destination ex_args \<noteq> []
   \<and> prefix ''s3://'' (destination ex_args)
   \<and> RunE noclient_env ex_fl ex_args =
       ([EvNewClient (vault_cfg ex_fl)], Returned (Some (Error ''vault: no client'')))"
  by (simp add: RunE_def noclient_env_def ex_env_def ex_fl_def ex_args_def destination_def)

text \<open>
  Claim C9, amended. In an S3 run whose Vault client was built, the run function returns
  an error having called nothing else (no directory is created, nothing is dumped) if and
  only if the KMS key is empty, or the destination is empty, or the destination does not
  begin with \<^verbatim>\<open>s3://\<close>. Otherwise \<^verbatim>\<open>ioutil.TempDir\<close> is called: the directory it
  returns takes the place of \<^verbatim>\<open>outputPath\<close> and the destination is kept as the S3
  path; when it fails, \<^verbatim>\<open>log.Fatal\<close> ends the process.
\<close>

theorem C9_s3_validation:
  assumes "output_flag fl = ''s3''"
      and "vault_NewClient env (vault_cfg fl) = Inr vc"
  shows "((\<exists>e. RunE env fl args = ([EvNewClient (vault_cfg fl)], Returned (Some e)))
            = (kmsKey fl = [] \<or> destination args = [] \<or> \<not> prefix ''s3://'' (destination args)))
         \<and> (kmsKey fl \<noteq> [] \<and> destination args \<noteq> [] \<and> prefix ''s3://'' (destination args) \<longrightarrow>
              (case ioutil_TempDir env [] ''vault-dump-*'' of
                 Inl err \<Rightarrow>
                   RunE env fl args =
                     ([EvNewClient (vault_cfg fl), EvTempDir [] ''vault-dump-*'', EvLogFatal err], Exited 1)
               | Inr tmp \<Rightarrow>
                   stage env fl args = ([EvTempDir [] ''vault-dump-*''], Inr (tmp, destination args))
                   \<and> hd (fst (body env fl args vc tmp (destination args))) =
                       EvNewOutput (dump_GetPathForOutput env tmp) (encoding fl) ''s3''))"
proof (cases "kmsKey fl = [] \<or> destination args = [] \<or> \<not> prefix ''s3://'' (destination args)")
  case True
  then have "\<exists>e. stage env fl args = ([], Inl (Returned (Some e)))"
    using assms(1) s3_prefix_iff [of "destination args"]
    by (auto simp: stage_def Let_def)
  then have "\<exists>e. RunE env fl args = ([EvNewClient (vault_cfg fl)], Returned (Some e))"
    using assms(2) by (auto simp: RunE_def)
  with True show ?thesis by auto
next
  case False
  then have ok: "kmsKey fl \<noteq> []" "destination args \<noteq> []" "prefix ''s3://'' (destination args)"
    by auto
  show ?thesis
  proof (cases "ioutil_TempDir env [] ''vault-dump-*''")
    case (Inl err)
    have "stage env fl args = ([EvTempDir [] ''vault-dump-*'', EvLogFatal err], Inl (Exited 1))"
      using assms(1) ok Inl s3_prefix_iff [of "destination args"]
      by (auto simp: stage_def Let_def)
    then have "RunE env fl args =
        ([EvNewClient (vault_cfg fl), EvTempDir [] ''vault-dump-*'', EvLogFatal err], Exited 1)"
      using assms(2) by (simp add: RunE_def)
    with False Inl show ?thesis by simp
  next
    case (Inr tmp)
    have st: "stage env fl args = ([EvTempDir [] ''vault-dump-*''], Inr (tmp, destination args))"
      using assms(1) ok(1,3) Inr by (rule stage_s3_ok)
    have "fst (RunE env fl args) \<noteq> [EvNewClient (vault_cfg fl)]"
      using RunE_after_defer [OF assms(2) st] by simp
    moreover have "hd (fst (body env fl args vc tmp (destination args))) =
        EvNewOutput (dump_GetPathForOutput env tmp) (encoding fl) ''s3''"
      using assms(1)
      by (auto simp: body_def Let_def split: sum.splits list.splits option.splits)
    ultimately show ?thesis using False Inr st by auto
  qed
qed

theorem C9_witness:
  "(\<exists>e. RunE ex_env ex_fl [''secret''] = ([EvNewClient (vault_cfg ex_fl)], Returned (Some e)))
   \<and> destination [''secret''] = []
   \<and> stage ex_env ex_fl ex_args =
       ([EvTempDir [] ''vault-dump-*''], Inr (''/tmp/vault-dump-42'', ''s3://bucket/dumps''))"
proof -
  have 1: "output_flag ex_fl = ''s3''" by (simp add: ex_fl_def)
  have 2: "vault_NewClient ex_env (vault_cfg ex_fl) = Inr ()" by (simp add: ex_env_def)
  have 3: "destination [''secret''] = []" by (simp add: destination_def)
  have 4: "kmsKey ex_fl \<noteq> [] \<and> destination ex_args \<noteq> [] \<and> prefix ''s3://'' (destination ex_args)"
    by (simp add: ex_fl_def ex_args_def destination_def)
  have 5: "ioutil_TempDir ex_env [] ''vault-dump-*'' = Inr ''/tmp/vault-dump-42''"
    by (simp add: ex_env_def)
  have 6: "destination ex_args = ''s3://bucket/dumps''"
    by (simp add: ex_args_def destination_def)
  from C9_s3_validation [OF 1 2, of "[''secret'']"] 3
  have a: "\<exists>e. RunE ex_env ex_fl [''secret''] = ([EvNewClient (vault_cfg ex_fl)], Returned (Some e))"
    by simp
  from C9_s3_validation [OF 1 2, of ex_args] 4 5 6
  have "stage ex_env ex_fl ex_args =
      ([EvTempDir [] ''vault-dump-*''], Inr (''/tmp/vault-dump-42'', ''s3://bucket/dumps''))"
    by simp
  with a 3 show ?thesis by simp
qed

section \<open>Properties of the transform subcommand and of the process\<close>











section \<open>Properties of the extraction engine\<close>


lemma retry_success:
  "request s = (Inr v, s') \<Longrightarrow> retry request maxAttempts attempt s = (Inr v, s', attempt)"
  by (subst retry.simps) simp





lemma node_at_insert_at_under:
  "node_at (insert_at p n t) (p @ r) = node_at n r"
  by (induction p n t rule: insert_at.induct) (simp_all add: update_conv')

lemma node_at_empty_branch: "q \<noteq> [] \<Longrightarrow> node_at (Branch []) q = None"
  by (cases q) simp_all

lemma node_at_leaf: "q \<noteq> [] \<Longrightarrow> node_at (Leaf kvs) q = None"
  by (cases q) simp_all

lemma node_at_insert_at_apart:
  "\<not> prefix p q \<Longrightarrow> \<not> prefix q p \<Longrightarrow> node_at (insert_at p n t) q = node_at t q"
proof (induction p n t arbitrary: q rule: insert_at.induct)
  case (1 node t)
  then show ?case by simp
next
  case (2 seg segs node kids)
  then obtain s ss where q: "q = s # ss" by (cases q) auto
  show ?case
  proof (cases "s = seg")
    case True
    with 2 q have "ss \<noteq> []" by auto
    with True 2 q show ?thesis
      by (auto simp: update_conv' node_at_empty_branch split: option.splits)
  next
    case False
    with q show ?thesis by (simp add: update_conv')
  qed
next
  case (3 seg segs node kvs)
  then obtain s ss where q: "q = s # ss" by (cases q) auto
  show ?case
  proof (cases "s = seg")
    case True
    with 3 q have "ss \<noteq> []" by auto
    with True 3 q show ?thesis
      by (auto simp: node_at_empty_branch split: option.splits)
  next
    case False
    with q show ?thesis by simp
  qed
qed

lemma node_at_insert_at_above:
  "strict_prefix q p \<Longrightarrow> \<exists>kids. node_at (insert_at p n t) q = Some (Branch kids)"
proof (induction p n t arbitrary: q rule: insert_at.induct)
  case (1 node t)
  then show ?case by simp
next
  case (2 seg segs node kids)
  show ?case
  proof (cases q)
    case Nil
    then show ?thesis by simp
  next
    case (Cons s ss)
    with 2 show ?thesis by (auto simp: update_conv')
  qed
next
  case (3 seg segs node kvs)
  show ?case
  proof (cases q)
    case Nil
    then show ?thesis by simp
  next
    case (Cons s ss)
    with 3 show ?thesis by auto
  qed
qed

lemma has_node_insert_at:
  assumes "n = Branch [] \<or> (\<exists>kvs. n = Leaf kvs)" and "has_node (insert_at p n t) q"
  shows "prefix q p \<or> has_node t q"
proof (cases "prefix p q")
  case True
  then obtain r where q: "q = p @ r" by (auto simp: prefix_def)
  show ?thesis
  proof (cases "r = []")
    case True
    with q show ?thesis by simp
  next
    case False
    then have "node_at n r = None"
      using assms(1) by (auto simp: node_at_empty_branch node_at_leaf)
    then have "node_at (insert_at p n t) q = None"
      by (simp add: q node_at_insert_at_under)
    with assms(2) show ?thesis by (simp add: has_node_def)
  qed
next
  case False
  show ?thesis
  proof (cases "prefix q p")
    case True
    then show ?thesis by simp
  next
    case np: False
    from False np have "node_at (insert_at p n t) q = node_at t q"
      by (rule node_at_insert_at_apart)
    with assms(2) show ?thesis by (simp add: has_node_def)
  qed
qed

lemma leaf_insert_at:
  assumes "n = Branch [] \<or> (\<exists>kvs. n = Leaf kvs)"
      and "node_at (insert_at p n t) q = Some (Leaf kvs)"
  shows "(q = p \<and> n = Leaf kvs) \<or> node_at t q = Some (Leaf kvs)"
proof (cases "prefix p q")
  case True
  then obtain r where q: "q = p @ r" by (auto simp: prefix_def)
  have nr: "node_at n r = Some (Leaf kvs)"
    using assms(2) by (simp add: q node_at_insert_at_under)
  show ?thesis
  proof (cases "r = []")
    case True
    with q nr show ?thesis by simp
  next
    case False
    then have "node_at n r = None"
      using assms(1) by (auto simp: node_at_empty_branch node_at_leaf)
    with nr show ?thesis by simp
  qed
next
  case False
  show ?thesis
  proof (cases "prefix q p")
    case True
    with False have "strict_prefix q p" by (auto simp: strict_prefix_def)
    from node_at_insert_at_above [OF this, of n t] assms(2) show ?thesis by auto
  next
    case np: False
    from False np have "node_at (insert_at p n t) q = node_at t q"
      by (rule node_at_insert_at_apart)
    with assms(2) show ?thesis by simp
  qed
qed

lemma shouldSkipPath_prefix:
  "prefix q p \<Longrightarrow> shouldSkipPath ign q \<Longrightarrow> shouldSkipPath ign p"
  by (auto simp: shouldSkipPath_def intro: prefix_order.trans)

lemma unskipped_calls:
  assumes "unskipped ign w" and "\<not> shouldSkipPath ign path" and "\<forall>c \<in> set cs. call_path c = path"
  shows "unskipped ign (w\<lparr>st := s, calls := calls w @ cs\<rparr>)"
  using assms by (auto simp: unskipped_def)

lemma unskipped_insert:
  assumes "unskipped ign w" and "\<not> shouldSkipPath ign path"
      and "n = Branch [] \<or> (\<exists>kvs. n = Leaf kvs)"
  shows "unskipped ign (w\<lparr>tree := insert_at path n (tree w)\<rparr>)"
  using assms has_node_insert_at [OF assms(3), of path "tree w"] shouldSkipPath_prefix [of _ path ign]
  by (auto simp: unskipped_def)

lemma filtered_insert_branch:
  "filtered ign t \<Longrightarrow> filtered ign (insert_at path (Branch []) t)"
  using leaf_insert_at [of "Branch []" path t]
  by (fastforce simp: filtered_def)

lemma filtered_insert_leaf:
  assumes "filtered ign t"
  shows "filtered ign (insert_at path (Leaf (filter (\<lambda>(k, v). \<not> shouldSkipKey ign k) kvs)) t)"
proof -
  let ?n = "Leaf (filter (\<lambda>(k, v). \<not> shouldSkipKey ign k) kvs)"
  have "\<forall>k \<in> fst ` set kvs'. \<not> shouldSkipKey ign k"
    if "node_at (insert_at path ?n t) q = Some (Leaf kvs')" for q kvs'
  proof -
    from leaf_insert_at [of ?n path t q kvs'] that
    consider "kvs' = filter (\<lambda>(k, v). \<not> shouldSkipKey ign k) kvs" | "node_at t q = Some (Leaf kvs')"
      by auto
    then show ?thesis
    proof cases
      case 1
      then show ?thesis by auto
    next
      case 2
      with assms show ?thesis by (simp add: filtered_def)
    qed
  qed
  then show ?thesis by (simp add: filtered_def)
qed

lemma each_preserves:
  assumes "\<And>c w w' s. I w \<Longrightarrow> visit c w = (w', s) \<Longrightarrow> I w'"
  shows "I w \<Longrightarrow> each visit cs w = (w', s) \<Longrightarrow> I w'"
proof (induction cs arbitrary: w)
  case Nil
  then show ?case by simp
next
  case (Cons c cs)
  obtain w1 s1 where v: "visit c w = (w1, s1)" by (cases "visit c w")
  from assms [OF Cons.prems(1) v] have I1: "I w1" .
  show ?case
  proof (cases "s1 = Ok")
    case True
    with Cons.prems(2) v have "each visit cs w1 = (w', s)" by simp
    from Cons.IH [OF I1 this] show ?thesis .
  next
    case False
    with Cons.prems(2) v have "w' = w1" by (cases s1) auto
    with I1 show ?thesis by simp
  qed
qed

lemma walk_at_preserves:
  "unskipped ign w \<and> filtered ign (tree w) \<Longrightarrow> walk_at fuel ign sto maxAttempts path w = (w', s) \<Longrightarrow>
     unskipped ign w' \<and> filtered ign (tree w')"
proof (induction fuel arbitrary: path w w' s)
  case 0
  then show ?case by simp
next
  case (Suc fuel)
  show ?case
  proof (cases "shouldSkipPath ign path")
    case True
    with Suc.prems show ?thesis by simp
  next
    case False
    obtain r1 s1 n1 where l: "withRetry (listChildren sto path) maxAttempts (st w) = (r1, s1, n1)"
      by (cases "withRetry (listChildren sto path) maxAttempts (st w)")
    let ?c1 = "replicate n1 (ListChildren path)"
    have u1: "unskipped ign (w\<lparr>st := s1, calls := calls w @ ?c1\<rparr>)"
      using Suc.prems(1) False by (intro unskipped_calls) auto
    show ?thesis
    proof (cases r1)
      case (Inl e)
      with Suc.prems False l u1 show ?thesis by auto
    next
      case (Inr children)
      show ?thesis
      proof (cases children)
        case Nil
        obtain r2 s2 n2 where r: "withRetry (readLeaf sto path) maxAttempts s1 = (r2, s2, n2)"
          by (cases "withRetry (readLeaf sto path) maxAttempts s1")
        let ?c2 = "replicate n1 (ListChildren path) @ replicate n2 (ReadLeaf path)"
        have u2: "unskipped ign (w\<lparr>st := s2, calls := calls w @ ?c2\<rparr>)"
          using Suc.prems(1) False by (intro unskipped_calls) auto
        show ?thesis
        proof (cases r2)
          case (Inl e)
          with Suc.prems False l r Inr Nil u2 show ?thesis by auto
        next
          case (Inr kvs)
          let ?leaf = "Leaf (filter (\<lambda>(k, v). \<not> shouldSkipKey ign k) kvs)"
          have "unskipped ign ((w\<lparr>st := s2, calls := calls w @ ?c2\<rparr>)\<lparr>tree :=
                  insert_at path ?leaf (tree (w\<lparr>st := s2, calls := calls w @ ?c2\<rparr>))\<rparr>)"
            using u2 False by (rule unskipped_insert) simp
          moreover have "filtered ign (insert_at path ?leaf (tree w))"
            using Suc.prems(1) by (intro filtered_insert_leaf) simp
          ultimately show ?thesis
            using Suc.prems(2) False l r \<open>r1 = Inr children\<close> Nil Inr by auto
        qed
      next
        case (Cons c cs)
        let ?w1 = "w\<lparr>st := s1, calls := calls w @ ?c1, tree := insert_at path (Branch []) (tree w)\<rparr>"
        have "unskipped ign ((w\<lparr>st := s1, calls := calls w @ ?c1\<rparr>)\<lparr>tree :=
                insert_at path (Branch []) (tree (w\<lparr>st := s1, calls := calls w @ ?c1\<rparr>))\<rparr>)"
          using u1 False by (rule unskipped_insert) simp
        moreover have "filtered ign (insert_at path (Branch []) (tree w))"
          using Suc.prems(1) by (intro filtered_insert_branch) simp
        ultimately have I1: "unskipped ign ?w1 \<and> filtered ign (tree ?w1)" by simp
        have e: "each (walk_at fuel ign sto maxAttempts) children ?w1 = (w', s)"
          using Suc.prems(2) False l Inr Cons by simp
        show ?thesis
          by (rule each_preserves [where I = "\<lambda>w. unskipped ign w \<and> filtered ign (tree w)", OF _ I1 e])
             (rule Suc.IH)
      qed
    qed
  qed
qed



lemma walk_at_leaf:
  assumes "\<not> shouldSkipPath ign p"
      and "withRetry (listChildren sto p) maxAttempts (st w) = (Inr [], s1, n1)"
      and "withRetry (readLeaf sto p) maxAttempts s1 = (Inr kvs, s2, n2)"
  shows "walk_at (Suc fuel) ign sto maxAttempts p w =
           (w\<lparr>st := s2,
              calls := calls w @ replicate n1 (ListChildren p) @ replicate n2 (ReadLeaf p),
              tree := insert_at p (Leaf (filter (\<lambda>(k, v). \<not> shouldSkipKey ign k) kvs)) (tree w)\<rparr>,
            Ok)"
  using assms by simp


lemma walk_invariants:
  assumes "walk_at fuel ign sto maxAttempts root \<lparr>st = s0, calls = [], tree = Branch []\<rparr> = (w, s)"
  shows "unskipped ign w \<and> filtered ign (tree w)"
proof (rule walk_at_preserves [OF _ assms])
  have "\<not> has_node (Branch []) q" for q
    by (cases q) (simp_all add: has_node_def)
  moreover have "node_at (Branch []) q \<noteq> Some (Leaf kvs)" for q kvs
    by (cases q) simp_all
  ultimately show "unskipped ign \<lparr>st = s0, calls = [], tree = Branch []\<rparr> \<and>
      filtered ign (tree \<lparr>st = s0, calls = [], tree = Branch []\<rparr>)"
    by (simp add: unskipped_def filtered_def)
qed

lemma walk_calls_tree:
  obtains w s where
    "walk_at fuel ign sto maxAttempts root \<lparr>st = s0, calls = [], tree = Branch []\<rparr> = (w, s)"
    "fst (fst (walk fuel ign sto maxAttempts s0 root)) = calls w"
    "\<And>t. snd (walk fuel ign sto maxAttempts s0 root) = Some (Inr t) \<Longrightarrow> t = tree w"
proof -
  obtain w s where
    ws: "walk_at fuel ign sto maxAttempts root \<lparr>st = s0, calls = [], tree = Branch []\<rparr> = (w, s)"
    by (cases "walk_at fuel ign sto maxAttempts root \<lparr>st = s0, calls = [], tree = Branch []\<rparr>")
  have "fst (fst (walk fuel ign sto maxAttempts s0 root)) = calls w"
    using ws by (cases s) (simp_all add: walk_def)
  moreover have "t = tree w" if "snd (walk fuel ign sto maxAttempts s0 root) = Some (Inr t)" for t
    using ws that by (cases s) (simp_all add: walk_def)
  ultimately show ?thesis using ws that by blast
qed



text \<open>
  Claim C4. Let \<open>p\<close> be an ignored path and \<open>q\<close> be \<open>p\<close> or a path under \<open>p\<close>. Whatever the
  root of the walk, the store and the number of levels allowed, and however the walk
  ends, no call to the store (neither \<open>listChildren\<close> nor \<open>readLeaf\<close>) was made for \<open>q\<close>,
  and a tree that is returned has no node at \<open>q\<close>. A path is skipped exactly when it
  consists of the segments of an ignored path followed by any further segments.
\<close>

theorem C4_ignored_paths_skipped:
  assumes "p \<in> ignoredPaths ign" and "prefix p q"
  shows "ListChildren q \<notin> set (fst (fst (walk fuel ign sto maxAttempts s0 root)))
         \<and> ReadLeaf q \<notin> set (fst (fst (walk fuel ign sto maxAttempts s0 root)))
         \<and> (\<forall>t. snd (walk fuel ign sto maxAttempts s0 root) = Some (Inr t) \<longrightarrow> \<not> has_node t q)
         \<and> (\<forall>x. shouldSkipPath ign x = (\<exists>p' \<in> ignoredPaths ign. \<exists>r. x = p' @ r))"
proof -
  from walk_calls_tree [of fuel ign sto maxAttempts root s0] obtain w s where
    ws: "walk_at fuel ign sto maxAttempts root \<lparr>st = s0, calls = [], tree = Branch []\<rparr> = (w, s)"
    and c: "fst (fst (walk fuel ign sto maxAttempts s0 root)) = calls w"
    and t: "\<And>t. snd (walk fuel ign sto maxAttempts s0 root) = Some (Inr t) \<Longrightarrow> t = tree w"
    by blast
  from walk_invariants [OF ws] have inv: "unskipped ign w" by simp
  have skip: "shouldSkipPath ign q"
    using assms by (auto simp: shouldSkipPath_def)
  have "ListChildren q \<notin> set (calls w)"
  proof
    assume "ListChildren q \<in> set (calls w)"
    with inv have "\<not> shouldSkipPath ign (call_path (ListChildren q))"
      unfolding unskipped_def by blast
    with skip show False by simp
  qed
  moreover have "ReadLeaf q \<notin> set (calls w)"
  proof
    assume "ReadLeaf q \<in> set (calls w)"
    with inv have "\<not> shouldSkipPath ign (call_path (ReadLeaf q))"
      unfolding unskipped_def by blast
    with skip show False by simp
  qed
  moreover have "\<not> has_node (tree w) q"
    using inv skip unfolding unskipped_def by blast
  moreover have "\<forall>x. shouldSkipPath ign x = (\<exists>p' \<in> ignoredPaths ign. \<exists>r. x = p' @ r)"
    by (simp add: shouldSkipPath_def prefix_def)
  ultimately show ?thesis using c t by auto
qed

theorem C4_witness:
  "walk 3 prod_rules app_store 5 0 [] =
     (([ListChildren [], ListChildren [''app''], ListChildren [''app'', ''production''],
        ReadLeaf [''app'', ''production''], ListChildren [''db''], ReadLeaf [''db'']], 6),
      Some (Inr (Branch [(''app'', Branch [(''production'', Leaf [(''token'', ''t2'')])]),
                         (''db'', Leaf [(''user'', ''alice'')])])))
   \<and> ListChildren [''app'', ''prod''] \<notin> set (fst (fst (walk 3 prod_rules app_store 5 0 [])))
   \<and> ReadLeaf [''app'', ''prod''] \<notin> set (fst (fst (walk 3 prod_rules app_store 5 0 [])))
   \<and> \<not> has_node (Branch [(''app'', Branch [(''production'', Leaf [(''token'', ''t2'')])]),
                           (''db'', Leaf [(''user'', ''alice'')])]) [''app'', ''prod'']
   \<and> has_node (Branch [(''app'', Branch [(''production'', Leaf [(''token'', ''t2'')])]),
                         (''db'', Leaf [(''user'', ''alice'')])]) [''app'', ''production'']"
proof -
  have e: "walk 3 prod_rules app_store 5 0 [] =
     (([ListChildren [], ListChildren [''app''], ListChildren [''app'', ''production''],
        ReadLeaf [''app'', ''production''], ListChildren [''db''], ReadLeaf [''db'']], 6),
      Some (Inr (Branch [(''app'', Branch [(''production'', Leaf [(''token'', ''t2'')])]),
                         (''db'', Leaf [(''user'', ''alice'')])])))"
    by (simp add: walk_def eval_nat_numeral withRetry_def app_store_def prod_rules_def
        shouldSkipPath_def shouldSkipKey_def)
  then have e': "snd (walk 3 prod_rules app_store 5 0 []) =
      Some (Inr (Branch [(''app'', Branch [(''production'', Leaf [(''token'', ''t2'')])]),
                         (''db'', Leaf [(''user'', ''alice'')])]))"
    by simp
  have 1: "[''app'', ''prod''] \<in> ignoredPaths prod_rules" by (simp add: prod_rules_def)
  have 2: "prefix [''app'', ''prod''] [''app'', ''prod'']" by simp
  note c = C4_ignored_paths_skipped [OF 1 2, of 3 app_store 5 0 "[]"]
  from c have calls: "ListChildren [''app'', ''prod''] \<notin> set (fst (fst (walk 3 prod_rules app_store 5 0 [])))"
    "ReadLeaf [''app'', ''prod''] \<notin> set (fst (fst (walk 3 prod_rules app_store 5 0 [])))"
    by blast+
  from c e' have gone: "\<not> has_node (Branch [(''app'', Branch [(''production'', Leaf [(''token'', ''t2'')])]),
                           (''db'', Leaf [(''user'', ''alice'')])]) [''app'', ''prod'']"
    by blast
  have kept: "has_node (Branch [(''app'', Branch [(''production'', Leaf [(''token'', ''t2'')])]),
                         (''db'', Leaf [(''user'', ''alice'')])]) [''app'', ''production'']"
    by (simp add: has_node_def)
  from e calls gone kept show ?thesis by blast
qed

text \<open>
  Claim C5. No leaf of a tree the walk returns holds an ignored key, whatever the path of
  the leaf. And a leaf that is visited (its path is not skipped, its children are listed
  as none and its pairs are read) is inserted at its path with the pairs whose keys are
  not ignored, also when none is left: then the tree holds the empty leaf at that path.
  The same is said of a walk whose root is such a leaf.
\<close>

theorem C5_ignored_keys_dropped:
  "(\<forall>t q kvs k. snd (walk fuel ign sto maxAttempts s0 root) = Some (Inr t) \<longrightarrow>
      node_at t q = Some (Leaf kvs) \<longrightarrow> k \<in> ignoredKeys ign \<longrightarrow> k \<notin> fst ` set kvs)
   \<and> (\<forall>p w s1 n1 kvs s2 n2.
        \<not> shouldSkipPath ign p \<longrightarrow>
        withRetry (listChildren sto p) maxAttempts (st w) = (Inr [], s1, n1) \<longrightarrow>
        withRetry (readLeaf sto p) maxAttempts s1 = (Inr kvs, s2, n2) \<longrightarrow>
        (\<exists>w'. walk_at (Suc fuel) ign sto maxAttempts p w = (w', Ok)
            \<and> node_at (tree w') p = Some (Leaf (filter (\<lambda>(k, v). k \<notin> ignoredKeys ign) kvs))
            \<and> (fst ` set kvs \<subseteq> ignoredKeys ign \<longrightarrow> node_at (tree w') p = Some (Leaf []))))
   \<and> (\<forall>p s1 n1 kvs s2 n2.
        \<not> shouldSkipPath ign p \<longrightarrow>
        withRetry (listChildren sto p) maxAttempts s0 = (Inr [], s1, n1) \<longrightarrow>
        withRetry (readLeaf sto p) maxAttempts s1 = (Inr kvs, s2, n2) \<longrightarrow>
        (\<exists>t. snd (walk (Suc fuel) ign sto maxAttempts s0 p) = Some (Inr t)
            \<and> node_at t p = Some (Leaf (filter (\<lambda>(k, v). k \<notin> ignoredKeys ign) kvs))
            \<and> (fst ` set kvs \<subseteq> ignoredKeys ign \<longrightarrow> node_at t p = Some (Leaf []))))"
proof (intro conjI allI impI)
  fix t q kvs k
  assume r: "snd (walk fuel ign sto maxAttempts s0 root) = Some (Inr t)"
    and l: "node_at t q = Some (Leaf kvs)" and k: "k \<in> ignoredKeys ign"
  from walk_calls_tree [of fuel ign sto maxAttempts root s0] obtain w s where
    ws: "walk_at fuel ign sto maxAttempts root \<lparr>st = s0, calls = [], tree = Branch []\<rparr> = (w, s)"
    and t: "\<And>t. snd (walk fuel ign sto maxAttempts s0 root) = Some (Inr t) \<Longrightarrow> t = tree w"
    by blast
  from walk_invariants [OF ws] t [OF r] have "filtered ign t" by simp
  with l have "\<forall>k \<in> fst ` set kvs. \<not> shouldSkipKey ign k"
    unfolding filtered_def by blast
  with k show "k \<notin> fst ` set kvs" by (auto simp: shouldSkipKey_def)
next
  fix p and w :: "'a wstate" and s1 n1 kvs s2 n2
  assume a: "\<not> shouldSkipPath ign p"
    "withRetry (listChildren sto p) maxAttempts (st w) = (Inr [], s1, n1)"
    "withRetry (readLeaf sto p) maxAttempts s1 = (Inr kvs, s2, n2)"
  let ?kept = "filter (\<lambda>(k, v). k \<notin> ignoredKeys ign) kvs"
  let ?w' = "w\<lparr>st := s2,
      calls := calls w @ replicate n1 (ListChildren p) @ replicate n2 (ReadLeaf p),
      tree := insert_at p (Leaf ?kept) (tree w)\<rparr>"
  have "walk_at (Suc fuel) ign sto maxAttempts p w = (?w', Ok)"
    using walk_at_leaf [OF a] by (simp add: shouldSkipKey_def)
  moreover have "node_at (tree ?w') p = Some (Leaf ?kept)"
    using node_at_insert_at_under [of p "Leaf ?kept" "tree w" "[]"] by simp
  moreover have "?kept = []" if "fst ` set kvs \<subseteq> ignoredKeys ign"
    using that by (auto simp: filter_empty_conv)
  ultimately show "\<exists>w'. walk_at (Suc fuel) ign sto maxAttempts p w = (w', Ok)
            \<and> node_at (tree w') p = Some (Leaf ?kept)
            \<and> (fst ` set kvs \<subseteq> ignoredKeys ign \<longrightarrow> node_at (tree w') p = Some (Leaf []))"
    by (intro exI [of _ ?w']) auto
next
  fix p s1 n1 kvs s2 n2
  assume a: "\<not> shouldSkipPath ign p"
    "withRetry (listChildren sto p) maxAttempts s0 = (Inr [], s1, n1)"
    "withRetry (readLeaf sto p) maxAttempts s1 = (Inr kvs, s2, n2)"
  let ?kept = "filter (\<lambda>(k, v). k \<notin> ignoredKeys ign) kvs"
  let ?t = "insert_at p (Leaf ?kept) (Branch [])"
  have "snd (walk (Suc fuel) ign sto maxAttempts s0 p) = Some (Inr ?t)"
    using a by (simp add: walk_def shouldSkipKey_def)
  moreover have "node_at ?t p = Some (Leaf ?kept)"
    using node_at_insert_at_under [of p "Leaf ?kept" "Branch []" "[]"] by simp
  moreover have "?kept = []" if "fst ` set kvs \<subseteq> ignoredKeys ign"
    using that by (auto simp: filter_empty_conv)
  ultimately show "\<exists>t. snd (walk (Suc fuel) ign sto maxAttempts s0 p) = Some (Inr t)
            \<and> node_at t p = Some (Leaf ?kept)
            \<and> (fst ` set kvs \<subseteq> ignoredKeys ign \<longrightarrow> node_at t p = Some (Leaf []))"
    by (intro exI [of _ ?t]) auto
qed

theorem C5_witness:
  "snd (walk 3 pass_rules db_store 5 0 []) =
     Some (Inr (Branch [(''db'', Leaf [(''user'', ''alice'')])]))
   \<and> snd (walk 3 both_keys_rules db_store 5 0 []) = Some (Inr (Branch [(''db'', Leaf [])]))
   \<and> ''pass'' \<notin> fst ` set [(''user'', ''alice'')]
   \<and> (\<exists>t. snd (walk 1 both_keys_rules db_store 5 0 [''db'']) = Some (Inr t)
          \<and> node_at t [''db''] = Some (Leaf []))"
proof -
  have 1: "snd (walk 3 pass_rules db_store 5 0 []) =
     Some (Inr (Branch [(''db'', Leaf [(''user'', ''alice'')])]))"
    by (simp add: walk_def eval_nat_numeral withRetry_def db_store_def pass_rules_def
        shouldSkipPath_def shouldSkipKey_def)
  have 2: "snd (walk 3 both_keys_rules db_store 5 0 []) = Some (Inr (Branch [(''db'', Leaf [])]))"
    by (simp add: walk_def eval_nat_numeral withRetry_def db_store_def both_keys_rules_def
        shouldSkipPath_def shouldSkipKey_def)
  have 3: "node_at (Branch [(''db'', Leaf [(''user'', ''alice'')])]) [''db''] =
      Some (Leaf [(''user'', ''alice'')])"
    by simp
  have 4: "''pass'' \<in> ignoredKeys pass_rules" by (simp add: pass_rules_def)
  have 5: "\<not> shouldSkipPath both_keys_rules [''db'']"
    by (simp add: shouldSkipPath_def both_keys_rules_def)
  have 6: "withRetry (listChildren db_store [''db'']) 5 0 = (Inr [], 1, 1)"
    by (simp add: withRetry_def db_store_def)
  have 7: "withRetry (readLeaf db_store [''db'']) 5 1 =
      (Inr [(''user'', ''alice''), (''pass'', ''s3cr3t'')], 2, 1)"
    by (simp add: withRetry_def db_store_def)
  have 8: "fst ` set [(''user'', ''alice''), (''pass'', ''s3cr3t'')] \<subseteq> ignoredKeys both_keys_rules"
    by (simp add: both_keys_rules_def)
  note a = C5_ignored_keys_dropped [of 3 pass_rules db_store 5 0 "[]"]
  note b = C5_ignored_keys_dropped [of 0 both_keys_rules db_store 5 0 "[]"]
  from a 1 3 4 have "''pass'' \<notin> fst ` set [(''user'', ''alice'')]" by blast
  moreover from b 5 6 7 8
  have "\<exists>t. snd (walk (Suc 0) both_keys_rules db_store 5 0 [''db'']) = Some (Inr t)
          \<and> node_at t [''db''] = Some (Leaf [])"
    by blast
  ultimately show ?thesis using 1 2 by simp
qed

section \<open>Properties of the transform engine\<close>

text \<open>The scenarios of section 8 of the specification.\<close>

lemma scenario_rename:
  "applyRules [Move [''db'', ''user''] [''database'', ''username'']]
     (Mapping [(''db'', Mapping [(''user'', Str ''alice'')])]) =
   Inr (Mapping [(''database'', Mapping [(''username'', Str ''alice'')])])"
  by (simp add: applyRules_def)

lemma scenario_delete_nothing:
  "applyRules [Delete [''x'', ''y'']] (Mapping []) = Inr (Mapping [])"
  by (simp add: applyRules_def)

lemma scenario_template:
  "substitute [Text ''postgres://'', Ref [''db'', ''user''], Text ''@host'']
     (Mapping [(''db'', Mapping [(''user'', Str ''alice'')])]) = Inr ''postgres://alice@host''"
  "substitute [Text ''postgres://'', Ref [''db'', ''user''], Text ''@host''] (Mapping []) =
     Inr ''postgres://@host''"
  by simp_all

text \<open>Rules compose in sequence: a pass over two lists is a pass over each in turn.\<close>

lemma applyFrom_append:
  "applyFrom i (rs @ rs') d =
     (case applyFrom i rs d of Inl e \<Rightarrow> Inl e | Inr d' \<Rightarrow> applyFrom (i + length rs) rs' d')"
  by (induction rs arbitrary: i d) (auto split: sum.splits)

text \<open>
  Claim C6. Applying the empty rule set to any document succeeds and returns the
  document itself.
\<close>

theorem C6_empty_rule_set_identity: "applyRules [] doc = Inr doc"
  by (simp add: applyRules_def)

end
